theory Spec2Isabelle
  imports Main "HOL-Library.Word"
begin

unbundle bit_operations_syntax

section \<open>The ancestors matrix of cycle\_detector.c\<close>

text \<open>
  The program keeps one global bit matrix, \<^verbatim>\<open>FIELD ancestors[TOTAL_NODES][FIELDS_PER_NODE]\<close>,
  and five functions on it. The model passes the matrix explicitly: a function takes the
  matrix and returns the new one. The C types are modelled as follows.

  \<^item> \<^verbatim>\<open>int\<close> is 32 bits wide, two's complement. An \<^verbatim>\<open>int\<close> value is an \<open>int\<close> of HOL
    in the range \<open>-2^31 \<dots> 2^31 - 1\<close>; where the code leaves that range the wrap-around is
    written out (\<open>to_int\<close>).
  \<^item> \<^verbatim>\<open>FIELD\<close> is \<^verbatim>\<open>unsigned long\<close>, and \<^verbatim>\<open>sizeof\<close> yields a \<^verbatim>\<open>size_t\<close>, which is
    \<^verbatim>\<open>unsigned long\<close> too. Its width is left open by the source (\<^verbatim>\<open>sizeof(FIELD)*8\<close>): it
    is the type parameter \<open>'f\<close>, a field being an \<open>'f word\<close>. The header of the source names
    the targets it was built for (PowerPC and Intel Macintosh, 2008), where
    \<^verbatim>\<open>unsigned long\<close> has 32 bits; on an LP64 target it has 64.
  \<^item> A read or write outside the bounds of the array, and a shift of an \<^verbatim>\<open>int\<close> by 32 or
    more, are undefined in C. The model returns a \<open>fault\<close> there (\<open>Inl\<close>), so that every
    theorem about a result (\<open>Inr\<close>) also says that no such access took place.
  \<^item> The calls of \<^verbatim>\<open>printf\<close> write to the terminal only and are left out.
\<close>

datatype fault = OutOfBounds | ShiftTooWide

text \<open>\<^verbatim>\<open>#define FAIL 0\<close>, \<^verbatim>\<open>#define PASS 1\<close>, \<^verbatim>\<open>#define BAD_DATA 2\<close>: the return values of
  \<^verbatim>\<open>insert_link\<close>.\<close>

datatype verdict = FAIL | PASS | BAD_DATA

type_synonym 'f matrix = "int \<Rightarrow> int \<Rightarrow> 'f word"

definition TOTAL_NODES :: int where
  "TOTAL_NODES = 65536"

definition FIELD_SIZE :: "'f::len itself \<Rightarrow> int" where
  "FIELD_SIZE _ = int LENGTH('f)"

definition FIELDS_PER_NODE :: "'f::len itself \<Rightarrow> int" where
  "FIELDS_PER_NODE T = TOTAL_NODES div FIELD_SIZE T"

text \<open>The static array starts zeroed (C static storage).\<close>

definition zeroed :: "'f::len matrix" where
  "zeroed = (\<lambda>i c. 0)"

subsection \<open>Conversions and the shift\<close>

text \<open>\<open>to_ulong\<close>: the conversion of an \<^verbatim>\<open>int\<close> to \<^verbatim>\<open>unsigned long\<close>, which the division and
  the remainder by \<^verbatim>\<open>FIELD_SIZE\<close> (a \<^verbatim>\<open>size_t\<close>) apply to their left operand. \<open>to_int\<close>: the
  conversion back to \<^verbatim>\<open>int\<close>, wrapping into the 32-bit range.\<close>

definition to_ulong :: "'f::len itself \<Rightarrow> int \<Rightarrow> int" where
  "to_ulong _ n = n mod 2 ^ LENGTH('f)"

definition to_int :: "int \<Rightarrow> int" where
  "to_int m = (m + 2 ^ 31) mod 2 ^ 32 - 2 ^ 31"

text \<open>\<^verbatim>\<open>a << n\<close> on \<^verbatim>\<open>int\<close>. The shift is undefined for \<open>n < 0\<close> and for \<open>n \<ge> 32\<close>; a shift
  into the sign bit gives the bit pattern's value (\<^verbatim>\<open>1 << 31\<close> is \<^verbatim>\<open>INT_MIN\<close>), as gcc and
  clang compute it.\<close>

definition shift_left_int :: "int \<Rightarrow> int \<Rightarrow> fault + int" where
  "shift_left_int a n =
     (if 0 \<le> n \<and> n < 32 then Inr (to_int (a * 2 ^ nat n)) else Inl ShiftTooWide)"

subsection \<open>Array accesses\<close>

definition in_bounds :: "'f::len itself \<Rightarrow> int \<Rightarrow> int \<Rightarrow> bool" where
  "in_bounds T i c = (0 \<le> i \<and> i < TOTAL_NODES \<and> 0 \<le> c \<and> c < FIELDS_PER_NODE T)"

definition fetch :: "'f::len matrix \<Rightarrow> int \<Rightarrow> int \<Rightarrow> fault + 'f word" where
  "fetch ancestors i c =
     (if in_bounds TYPE('f) i c then Inr (ancestors i c) else Inl OutOfBounds)"

definition store :: "'f::len matrix \<Rightarrow> int \<Rightarrow> int \<Rightarrow> 'f word \<Rightarrow> fault + 'f matrix" where
  "store ancestors i c w =
     (if in_bounds TYPE('f) i c then Inr (ancestors(i := (ancestors i)(c := w)))
      else Inl OutOfBounds)"

subsection \<open>Loops\<close>

text \<open>\<^verbatim>\<open>for (k = 0; k < n; k++) body\<close> runs the body at \<open>0, 1, \<dots>, n - 1\<close> and stops at the
  first fault.\<close>

primrec for_each :: "'a list \<Rightarrow> ('a \<Rightarrow> 's \<Rightarrow> fault + 's) \<Rightarrow> 's \<Rightarrow> fault + 's" where
  "for_each [] body s = Inr s"
| "for_each (x # xs) body s =
     (case body x s of Inl e \<Rightarrow> Inl e | Inr s' \<Rightarrow> for_each xs body s')"

definition count_up :: "int \<Rightarrow> int list" where
  "count_up n = map int [0..<nat n]"

subsection \<open>The functions of the source\<close>

definition is_ancestor :: "'f::len matrix \<Rightarrow> int \<Rightarrow> int \<Rightarrow> fault + bool" where
  "is_ancestor ancestors n_node n_ancestor =
     (let n_target_chunk = to_int (to_ulong TYPE('f) n_ancestor div FIELD_SIZE TYPE('f));
          n_target_bit = to_int (to_ulong TYPE('f) n_ancestor mod FIELD_SIZE TYPE('f))
      in case shift_left_int 1 n_target_bit of
           Inl e \<Rightarrow> Inl e
         | Inr m \<Rightarrow>
             (let bit_to_get = (word_of_int m :: 'f word)
              in case fetch ancestors n_node n_target_chunk of
                   Inl e \<Rightarrow> Inl e
                 | Inr w \<Rightarrow> Inr (w AND bit_to_get \<noteq> 0)))"

definition set_ancestor :: "'f::len matrix \<Rightarrow> int \<Rightarrow> int \<Rightarrow> fault + 'f matrix" where
  "set_ancestor ancestors n_descendant n_ancestor =
     (let n_target_chunk = to_int (to_ulong TYPE('f) n_ancestor div FIELD_SIZE TYPE('f));
          n_target_bit = to_int (to_ulong TYPE('f) n_ancestor mod FIELD_SIZE TYPE('f))
      in case shift_left_int 1 n_target_bit of
           Inl e \<Rightarrow> Inl e
         | Inr bit_to_set \<Rightarrow>
             (case fetch ancestors n_descendant n_target_chunk of
                Inl e \<Rightarrow> Inl e
              | Inr w \<Rightarrow>
                  store ancestors n_descendant n_target_chunk (w OR word_of_int bit_to_set)))"

definition initialize_ancestors :: "'f::len matrix \<Rightarrow> fault + 'f matrix" where
  "initialize_ancestors ancestors =
     for_each (count_up TOTAL_NODES) (\<lambda>i a. set_ancestor a i i) ancestors"

text \<open>The statement \<^verbatim>\<open>ancestors[k][n_field] |= ancestors[start_node][n_field]\<close>.\<close>

definition or_field :: "int \<Rightarrow> int \<Rightarrow> int \<Rightarrow> 'f::len matrix \<Rightarrow> fault + 'f matrix" where
  "or_field k start_node n_field ancestors =
     (case fetch ancestors k n_field of
        Inl e \<Rightarrow> Inl e
      | Inr w \<Rightarrow>
          (case fetch ancestors start_node n_field of
             Inl e \<Rightarrow> Inl e
           | Inr v \<Rightarrow> store ancestors k n_field (w OR v)))"

text \<open>The body of the outer loop of \<^verbatim>\<open>insert_ancestors\<close>, at row \<open>k\<close>.\<close>

definition insert_ancestors_row ::
  "int \<Rightarrow> int \<Rightarrow> int \<Rightarrow> 'f::len matrix \<Rightarrow> fault + 'f matrix" where
  "insert_ancestors_row start_node end_node k ancestors =
     (case is_ancestor ancestors k end_node of
        Inl e \<Rightarrow> Inl e
      | Inr b \<Rightarrow>
          if b then for_each (count_up (FIELDS_PER_NODE TYPE('f))) (or_field k start_node) ancestors
          else Inr ancestors)"

definition insert_ancestors :: "'f::len matrix \<Rightarrow> int \<Rightarrow> int \<Rightarrow> fault + 'f matrix" where
  "insert_ancestors ancestors start_node end_node =
     for_each (count_up TOTAL_NODES) (insert_ancestors_row start_node end_node) ancestors"

definition insert_link :: "'f::len matrix \<Rightarrow> int \<Rightarrow> int \<Rightarrow> fault + verdict \<times> 'f matrix" where
  "insert_link ancestors start_node end_node =
     (if start_node \<ge> TOTAL_NODES then Inr (BAD_DATA, ancestors)
      else if end_node \<ge> TOTAL_NODES then Inr (BAD_DATA, ancestors)
      else if start_node = end_node then Inr (FAIL, ancestors)
      else case is_ancestor ancestors start_node end_node of
             Inl e \<Rightarrow> Inl e
           | Inr b \<Rightarrow>
               if b then Inr (FAIL, ancestors)
               else (case insert_ancestors ancestors start_node end_node of
                       Inl e \<Rightarrow> Inl e
                     | Inr ancestors' \<Rightarrow> Inr (PASS, ancestors')))"

subsection \<open>The caller\<close>

text \<open>\<^verbatim>\<open>main\<close> calls \<^verbatim>\<open>initialize_ancestors\<close> once and then \<^verbatim>\<open>insert_link\<close> on every pair it
  reads. \<open>insert_links\<close> is the loop over the first pairs read, \<open>session\<close> the program from its
  start; both return the matrix and the links for which \<^verbatim>\<open>insert_link\<close> returned \<^verbatim>\<open>PASS\<close>, in
  the order of the calls.\<close>

fun insert_links :: "'f::len matrix \<Rightarrow> (int \<times> int) list \<Rightarrow> fault + (int \<times> int) list \<times> 'f matrix" where
  "insert_links a [] = Inr ([], a)"
| "insert_links a ((s, t) # cs) =
     (case insert_link a s t of
        Inl e \<Rightarrow> Inl e
      | Inr (v, a') \<Rightarrow>
          (case insert_links a' cs of
             Inl e \<Rightarrow> Inl e
           | Inr (es, a'') \<Rightarrow> Inr (if v = PASS then (s, t) # es else es, a'')))"

definition session :: "(int \<times> int) list \<Rightarrow> fault + (int \<times> int) list \<times> 'f::len matrix" where
  "session cs =
     (case initialize_ancestors zeroed of Inl e \<Rightarrow> Inl e | Inr a \<Rightarrow> insert_links a cs)"

text \<open>The calls \<^verbatim>\<open>insert_link(1,2)\<close>, \<^verbatim>\<open>insert_link(2,3)\<close>, \<open>\<dots>\<close>, \<^verbatim>\<open>insert_link(k-1,k)\<close>.\<close>

definition chain :: "int \<Rightarrow> (int \<times> int) list" where
  "chain k = map (\<lambda>m. (int m, int m + 1)) [1..<nat k]"

section \<open>Reading the matrix\<close>

text \<open>A node identifier is an \<^verbatim>\<open>int\<close> in \<open>[0, TOTAL_NODES)\<close>; \<open>c_int\<close> holds of the values
  the type \<^verbatim>\<open>int\<close> has.\<close>

definition node :: "int \<Rightarrow> bool" where
  "node i = (0 \<le> i \<and> i < TOTAL_NODES)"

definition c_int :: "int \<Rightarrow> bool" where
  "c_int n = (- (2 ^ 31) \<le> n \<and> n < 2 ^ 31)"

text \<open>\<open>recorded a i j\<close>: bit \<open>j mod FIELD_SIZE\<close> of field \<open>j div FIELD_SIZE\<close> of row \<open>i\<close> is
  set, that is, \<open>j\<close> is recorded as an ancestor of \<open>i\<close>.\<close>

definition recorded :: "'f::len matrix \<Rightarrow> int \<Rightarrow> int \<Rightarrow> bool" where
  "recorded a i j = bit (a i (j div FIELD_SIZE TYPE('f))) (nat (j mod FIELD_SIZE TYPE('f)))"

text \<open>The union of two rows, field by field, and the matrix in which every row of \<open>K\<close> that
  has \<open>t\<close> as an ancestor is replaced by its union with row \<open>s\<close>: what the outer loop of
  \<^verbatim>\<open>insert_ancestors\<close> has computed once it has visited the rows of \<open>K\<close>.\<close>

definition merge_rows :: "'f::len itself \<Rightarrow> (int \<Rightarrow> 'f word) \<Rightarrow> (int \<Rightarrow> 'f word) \<Rightarrow> int \<Rightarrow> 'f word" where
  "merge_rows T r r' = (\<lambda>c. if 0 \<le> c \<and> c < FIELDS_PER_NODE T then r c OR r' c else r c)"

definition propagated :: "int set \<Rightarrow> 'f::len matrix \<Rightarrow> int \<Rightarrow> int \<Rightarrow> 'f matrix" where
  "propagated K a s t =
     (\<lambda>k. if k \<in> K \<and> is_ancestor a k t = Inr True then merge_rows TYPE('f) (a k) (a s) else a k)"

text \<open>The matrix with the diagonal set and nothing else.\<close>

definition identity_matrix :: "'f::len matrix" where
  "identity_matrix =
     (\<lambda>i c. if 0 \<le> i \<and> i < TOTAL_NODES \<and> c = i div FIELD_SIZE TYPE('f)
            then 2 ^ nat (i mod FIELD_SIZE TYPE('f)) else 0)"

text \<open>The matrix records exactly the reflexive transitive closure of the links \<open>E\<close>.\<close>

definition exact :: "(int \<times> int) set \<Rightarrow> 'f::len matrix \<Rightarrow> bool" where
  "exact E a = (\<forall>i j. node i \<longrightarrow> node j \<longrightarrow> recorded a i j = ((j, i) \<in> E\<^sup>*))"

section \<open>A 32-bit \<^verbatim>\<open>unsigned long\<close>\<close>

text \<open>From here on a field has 32 bits, the width of \<^verbatim>\<open>int\<close>: the matrix is a
  \<open>32 matrix\<close>, \<^verbatim>\<open>FIELD_SIZE\<close> is 32 and \<^verbatim>\<open>FIELDS_PER_NODE\<close> is 2048.\<close>

lemma FIELD_SIZE_32: "FIELD_SIZE TYPE(32) = 32"
  by (simp add: FIELD_SIZE_def)

lemma FIELDS_PER_NODE_32: "FIELDS_PER_NODE TYPE(32) = 2048"
  by (simp add: FIELDS_PER_NODE_def FIELD_SIZE_def TOTAL_NODES_def)

lemma to_ulong_32: "0 \<le> n \<Longrightarrow> n < 65536 \<Longrightarrow> to_ulong TYPE(32) n = n"
  by (simp add: to_ulong_def)

lemma to_int_small: "- (2 ^ 31) \<le> m \<Longrightarrow> m < 2 ^ 31 \<Longrightarrow> to_int m = m"
  by (simp add: to_int_def)

lemma word_of_int_to_int: "(word_of_int (to_int m) :: 32 word) = word_of_int m"
proof -
  have "((m + 2 ^ 31) mod 2 ^ 32 - 2 ^ 31) mod 2 ^ 32 = m mod (2 ^ 32 :: int)"
    by (simp add: mod_diff_left_eq)
  then have "take_bit 32 (to_int m) = take_bit 32 m"
    by (simp only: take_bit_eq_mod to_int_def)
  then show ?thesis
    by (subst word_of_int_eq_iff) simp
qed

lemma chunk_in_bounds:
  assumes "node j"
  shows "0 \<le> j div 32" and "j div 32 < 2048" and "0 \<le> j mod 32" and "j mod 32 < 32"
  using assms unfolding node_def TOTAL_NODES_def by presburger+

lemma is_ancestor_32:
  fixes a :: "32 matrix"
  assumes "node i" and "node j"
  shows "is_ancestor a i j = Inr (recorded a i j)"
proof -
  have j: "0 \<le> j" "j < 65536"
    using assms(2) by (simp_all add: node_def TOTAL_NODES_def)
  have b: "in_bounds TYPE(32) i (j div 32)"
    using assms(1) chunk_in_bounds [OF assms(2)] by (simp add: in_bounds_def node_def FIELDS_PER_NODE_32)
  have s: "shift_left_int 1 (j mod 32) = Inr (to_int (2 ^ nat (j mod 32)))"
    using chunk_in_bounds [OF assms(2)] by (simp add: shift_left_int_def)
  have t: "to_int (j div 32) = j div 32" "to_int (j mod 32) = j mod 32"
    using chunk_in_bounds [OF assms(2)] by (simp_all add: to_int_small)
  show ?thesis
    unfolding is_ancestor_def Let_def FIELD_SIZE_32 to_ulong_32 [OF j] t s
    by (simp add: fetch_def b word_of_int_to_int recorded_def FIELD_SIZE_32 and_exp_eq_0_iff_not_bit)
qed

lemma set_ancestor_32:
  fixes a :: "32 matrix"
  assumes "node d" and "node j"
  shows "set_ancestor a d j =
           Inr (a(d := (a d)(j div 32 := a d (j div 32) OR 2 ^ nat (j mod 32))))"
proof -
  have j: "0 \<le> j" "j < 65536"
    using assms(2) by (simp_all add: node_def TOTAL_NODES_def)
  have b: "in_bounds TYPE(32) d (j div 32)"
    using assms(1) chunk_in_bounds [OF assms(2)] by (simp add: in_bounds_def node_def FIELDS_PER_NODE_32)
  have s: "shift_left_int 1 (j mod 32) = Inr (to_int (2 ^ nat (j mod 32)))"
    using chunk_in_bounds [OF assms(2)] by (simp add: shift_left_int_def)
  have t: "to_int (j div 32) = j div 32" "to_int (j mod 32) = j mod 32"
    using chunk_in_bounds [OF assms(2)] by (simp_all add: to_int_small)
  show ?thesis
    unfolding set_ancestor_def Let_def FIELD_SIZE_32 to_ulong_32 [OF j] t s
    by (simp add: fetch_def store_def b word_of_int_to_int)
qed

lemma for_each_append:
  "for_each (xs @ ys) body s =
     (case for_each xs body s of Inl e \<Rightarrow> Inl e | Inr s' \<Rightarrow> for_each ys body s')"
  by (induction xs arbitrary: s) (simp_all split: sum.splits)

lemma count_up_Suc: "count_up (int (Suc n)) = count_up (int n) @ [int n]"
  unfolding count_up_def nat_int by simp

lemma count_up_0: "count_up 0 = []"
  by (simp add: count_up_def)

lemma set_count_up: "set (count_up n) = {k. 0 \<le> k \<and> k < n}"
proof -
  have "k \<in> int ` {0..<nat n}" if "0 \<le> k" and "k < n" for k
    using that by (intro image_eqI [where x = "nat k"]) simp_all
  then show ?thesis
    by (auto simp: count_up_def)
qed

text \<open>The inner loop: after the fields below \<open>n\<close>, row \<open>k\<close> holds the union there.\<close>

lemma or_field_loop:
  fixes a :: "32 matrix"
  assumes "node k" and "node s" and "n \<le> 2048"
  shows "for_each (count_up (int n)) (or_field k s) a =
           Inr (a(k := (\<lambda>c. if 0 \<le> c \<and> c < int n then a k c OR a s c else a k c)))"
  using assms(3)
proof (induction n)
  case 0
  show ?case by (auto simp: count_up_0 fun_eq_iff)
next
  case (Suc n)
  let ?a = "a(k := (\<lambda>c. if 0 \<le> c \<and> c < int n then a k c OR a s c else a k c))"
  have b: "in_bounds TYPE(32) k (int n)" "in_bounds TYPE(32) s (int n)"
    using assms(1,2) Suc.prems by (simp_all add: in_bounds_def node_def FIELDS_PER_NODE_32)
  have step: "or_field k s (int n) ?a =
          Inr (a(k := (\<lambda>c. if 0 \<le> c \<and> c < int (Suc n) then a k c OR a s c else a k c)))"
    unfolding or_field_def fetch_def store_def using b
    by (auto simp: fun_eq_iff)
  from Suc.prems have "n \<le> 2048"
    by simp
  from Suc.IH [OF this] have ih: "for_each (count_up (int n)) (or_field k s) a = Inr ?a" .
  show ?case
    unfolding count_up_Suc for_each_append ih sum.case for_each.simps step ..
qed

lemma or_field_row:
  fixes a :: "32 matrix"
  assumes "node k" and "node s"
  shows "for_each (count_up (FIELDS_PER_NODE TYPE(32))) (or_field k s) a =
           Inr (a(k := merge_rows TYPE(32) (a k) (a s)))"
  using or_field_loop [OF assms, of 2048] by (simp add: FIELDS_PER_NODE_32 merge_rows_def)

lemma merge_rows_same: "merge_rows T r r = r"
  by (simp add: merge_rows_def fun_eq_iff)

lemma merge_rows_again: "merge_rows T (merge_rows T r r') r' = merge_rows T r r'"
  by (simp add: merge_rows_def fun_eq_iff or.assoc)

lemma propagated_empty: "propagated {} a s t = a"
  by (simp add: propagated_def)

lemma propagated_source: "propagated K a s t s = a s"
  by (simp add: propagated_def merge_rows_same)

lemma is_ancestor_propagated:
  fixes a :: "32 matrix"
  assumes "node k" and "node t"
  shows "is_ancestor (propagated K a s t) k t = is_ancestor a k t"
proof (cases "k \<in> K \<and> is_ancestor a k t = Inr True")
  case True
  then have "recorded a k t"
    by (simp add: is_ancestor_32 [OF assms])
  then have "recorded (propagated K a s t) k t"
    using True chunk_in_bounds [OF assms(2)]
    by (simp add: propagated_def recorded_def merge_rows_def FIELD_SIZE_32 FIELDS_PER_NODE_32 bit_or_iff)
  with True show ?thesis
    by (simp add: is_ancestor_32 [OF assms])
next
  case False
  then have "propagated K a s t k = a k"
    by (auto simp: propagated_def)
  then show ?thesis
    by (simp add: is_ancestor_32 [OF assms] recorded_def)
qed

lemma insert_ancestors_row_32:
  fixes a :: "32 matrix"
  assumes "node s" and "node t" and "node k"
  shows "insert_ancestors_row s t k (propagated K a s t) = Inr (propagated (insert k K) a s t)"
proof (cases "is_ancestor a k t = Inr True")
  case True
  let ?b = "propagated K a s t"
  have "?b k = a k \<or> ?b k = merge_rows TYPE(32) (a k) (a s)"
    by (simp add: propagated_def)
  then have "merge_rows TYPE(32) (?b k) (?b s) = merge_rows TYPE(32) (a k) (a s)"
    by (auto simp: propagated_source merge_rows_again)
  then have "?b(k := merge_rows TYPE(32) (?b k) (?b s)) = propagated (insert k K) a s t"
    using True by (auto simp: propagated_def fun_eq_iff)
  then show ?thesis
    unfolding insert_ancestors_row_def is_ancestor_propagated [OF assms(3,2)] True
    by (simp add: or_field_row [OF assms(3,1)])
next
  case False
  then have "propagated (insert k K) a s t = propagated K a s t"
    by (auto simp: propagated_def fun_eq_iff)
  moreover have "is_ancestor a k t = Inr False"
    using False by (simp add: is_ancestor_32 [OF assms(3,2)])
  ultimately show ?thesis
    unfolding insert_ancestors_row_def is_ancestor_propagated [OF assms(3,2)]
    by simp
qed

lemma insert_ancestors_rows:
  fixes a :: "32 matrix"
  assumes "node s" and "node t" and "\<forall>k\<in>set ks. node k"
  shows "for_each ks (insert_ancestors_row s t) (propagated K a s t) =
           Inr (propagated (K \<union> set ks) a s t)"
  using assms(3)
proof (induction ks arbitrary: K)
  case Nil
  show ?case by simp
next
  case (Cons k ks)
  then have "node k" and "\<forall>k\<in>set ks. node k"
    by simp_all
  then show ?case
    using Cons.IH [of "insert k K"]
    by (simp add: insert_ancestors_row_32 [OF assms(1,2)])
qed

lemma insert_ancestors_in_any_order:
  fixes a :: "32 matrix"
  assumes "node s" and "node t" and "set ks = {k. node k}"
  shows "for_each ks (insert_ancestors_row s t) a = Inr (propagated {k. node k} a s t)"
  using insert_ancestors_rows [OF assms(1,2), of ks "{}" a] assms(3)
  by (simp add: propagated_empty)

lemma insert_ancestors_32:
  fixes a :: "32 matrix"
  assumes "node s" and "node t"
  shows "insert_ancestors a s t = Inr (propagated {k. node k} a s t)"
  unfolding insert_ancestors_def
  by (rule insert_ancestors_in_any_order [OF assms])
     (simp add: set_count_up node_def)

lemma recorded_propagated:
  fixes a :: "32 matrix"
  assumes "node i" and "node j" and "node t"
  shows "recorded (propagated {k. node k} a s t) i j =
           (recorded a i j \<or> recorded a i t \<and> recorded a s j)"
  using chunk_in_bounds [OF assms(2)] assms(1)
  by (simp add: propagated_def is_ancestor_32 [OF assms(1,3)] recorded_def merge_rows_def
      FIELD_SIZE_32 FIELDS_PER_NODE_32 bit_or_iff)

lemma insert_link_32:
  fixes a :: "32 matrix"
  assumes "node s" and "node t"
  shows "insert_link a s t =
           (if s = t \<or> recorded a s t then Inr (FAIL, a)
            else Inr (PASS, propagated {k. node k} a s t))"
  using assms
  by (simp add: insert_link_def is_ancestor_32 insert_ancestors_32 node_def)

lemma is_ancestor_negative_row: "i < 0 \<Longrightarrow> \<exists>e. is_ancestor a i j = Inl e"
  by (simp add: is_ancestor_def Let_def fetch_def in_bounds_def split: sum.splits)

lemma negative_to_ulong:
  assumes "c_int j" and "j < 0"
  shows "to_ulong TYPE(32) j = j + 4294967296"
proof -
  have "j mod 4294967296 = (j + 4294967296) mod 4294967296"
    by simp
  also have "\<dots> = j + 4294967296"
    using assms by (intro mod_pos_pos_trivial) (simp_all add: c_int_def)
  finally show ?thesis
    by (simp add: to_ulong_def)
qed

lemma negative_chunk:
  assumes "c_int j" and "j < 0"
  shows "2048 \<le> (j + 4294967296) div 32" and "(j + 4294967296) div 32 < 2147483648"
proof -
  have "2147483648 div 32 \<le> (j + 4294967296) div 32"
    using assms by (intro zdiv_mono1) (simp_all add: c_int_def)
  then show "2048 \<le> (j + 4294967296) div 32"
    by simp
  have "(j + 4294967296) div 32 \<le> 4294967296 div 32"
    using assms by (intro zdiv_mono1) simp_all
  then show "(j + 4294967296) div 32 < 2147483648"
    by simp
qed

lemma is_ancestor_negative_column:
  fixes a :: "32 matrix"
  assumes "c_int j" and "j < 0"
  shows "\<exists>e. is_ancestor a i j = Inl e"
proof -
  have "\<not> in_bounds TYPE(32) i (to_int ((j + 4294967296) div 32))"
    using negative_chunk [OF assms]
    by (simp add: in_bounds_def FIELDS_PER_NODE_32 to_int_small)
  then show ?thesis
    unfolding is_ancestor_def Let_def fetch_def negative_to_ulong [OF assms] FIELD_SIZE_32
    by (simp split: sum.splits)
qed

lemma insert_link_outside:
  fixes a :: "32 matrix"
  assumes "c_int s" and "c_int t" and "\<not> (node s \<and> node t)"
    and "insert_link a s t = Inr (v, a')"
  shows "a' = a \<and> v \<noteq> PASS"
proof (cases "TOTAL_NODES \<le> s \<or> TOTAL_NODES \<le> t \<or> s = t")
  case True
  with assms(4) show ?thesis
    by (auto simp: insert_link_def split: if_splits)
next
  case False
  with assms(3) have "s < 0 \<or> t < 0"
    by (auto simp: node_def)
  then obtain e where "is_ancestor a s t = Inl e"
    using is_ancestor_negative_row [of s a t] is_ancestor_negative_column [OF assms(2), of a s]
    by blast
  with False assms(4) show ?thesis
    by (simp add: insert_link_def)
qed

lemma initialize_loop:
  assumes "n \<le> 65536"
  shows "for_each (count_up (int n)) (\<lambda>i a. set_ancestor a i i) (zeroed :: 32 matrix) =
           Inr (\<lambda>i c. if 0 \<le> i \<and> i < int n \<and> c = i div 32 then 2 ^ nat (i mod 32) else 0)"
  using assms
proof (induction n)
  case 0
  show ?case by (auto simp: count_up_0 zeroed_def fun_eq_iff)
next
  case (Suc n)
  let ?a = "\<lambda>i c. if 0 \<le> i \<and> i < int n \<and> c = i div 32 then 2 ^ nat (i mod 32) else 0 :: 32 word"
  have n: "node (int n)"
    using Suc.prems by (simp add: node_def TOTAL_NODES_def)
  have step: "set_ancestor ?a (int n) (int n) =
          Inr (\<lambda>i c. if 0 \<le> i \<and> i < int (Suc n) \<and> c = i div 32 then 2 ^ nat (i mod 32) else 0)"
    unfolding set_ancestor_32 [OF n n]
    by (auto simp: fun_eq_iff)
  from Suc.prems have "n \<le> 65536"
    by simp
  from Suc.IH [OF this]
  have ih: "for_each (count_up (int n)) (\<lambda>i a. set_ancestor a i i) (zeroed :: 32 matrix) = Inr ?a" .
  show ?case
    unfolding count_up_Suc for_each_append ih sum.case for_each.simps step ..
qed

lemma initialize_ancestors_32:
  "initialize_ancestors (zeroed :: 32 matrix) = Inr identity_matrix"
proof -
  have "(65536 :: nat) \<le> 65536"
    by simp
  from initialize_loop [OF this] show ?thesis
    unfolding initialize_ancestors_def TOTAL_NODES_def identity_matrix_def FIELD_SIZE_32
      of_nat_numeral .
qed

lemma recorded_identity_matrix:
  assumes "node i" and "node j"
  shows "recorded (identity_matrix :: 32 matrix) i j = (i = j)"
proof -
  have eq: "(j div 32 = i div 32 \<and> j mod 32 = i mod 32) = (i = j)"
    by (metis mult_div_mod_eq)
  have "nat (j mod 32) < 32" and "0 \<le> i mod 32" and "0 \<le> j mod 32"
    by simp_all
  then have b: "bit (2 ^ nat (i mod 32) :: 32 word) (nat (j mod 32)) = (j mod 32 = i mod 32)"
    by (auto simp: bit_exp_iff)
  have "recorded (identity_matrix :: 32 matrix) i j =
          (j div 32 = i div 32 \<and> j mod 32 = i mod 32)"
    using assms(1) unfolding recorded_def identity_matrix_def FIELD_SIZE_32 node_def
    by (simp add: b)
  then show ?thesis
    by (simp only: eq)
qed

lemma propagated_twice:
  fixes a :: "32 matrix"
  assumes "node t"
  shows "propagated {k. node k} (propagated {k. node k} a s t) s t = propagated {k. node k} a s t"
proof
  fix k
  let ?b = "propagated {k. node k} a s t"
  show "propagated {k. node k} ?b s t k = ?b k"
  proof (cases "node k")
    case True
    show ?thesis
      unfolding propagated_def [of _ ?b] is_ancestor_propagated [OF True assms] propagated_source
      by (simp add: propagated_def merge_rows_again)
  next
    case False
    then show ?thesis
      by (simp add: propagated_def)
  qed
qed

lemma exact_identity_matrix: "exact {} (identity_matrix :: 32 matrix)"
  by (simp add: exact_def recorded_identity_matrix eq_commute)

lemma exact_propagated:
  fixes a :: "32 matrix"
  assumes "exact E a" and "node s" and "node t"
  shows "exact (insert (s, t) E) (propagated {k. node k} a s t)"
  using assms
  by (auto simp: exact_def recorded_propagated rtrancl_insert)

lemma insert_links_exact:
  fixes a :: "32 matrix"
  assumes "insert_links a cs = Inr (es, a')" and "\<forall>(s, t)\<in>set cs. c_int s \<and> c_int t"
    and "exact E a"
  shows "exact (E \<union> set es) a'"
  using assms
proof (induction cs arbitrary: a E es)
  case Nil
  then show ?case by simp
next
  case (Cons c cs)
  obtain s t where c: "c = (s, t)"
    by (cases c)
  from Cons.prems(1) obtain v a1 es1 where
    link: "insert_link a s t = Inr (v, a1)" and
    rest: "insert_links a1 cs = Inr (es1, a')" and
    es: "es = (if v = PASS then (s, t) # es1 else es1)"
    by (auto simp: c split: sum.splits prod.splits)
  from Cons.prems(2) have ints: "c_int s" "c_int t" and rest_ints: "\<forall>(s, t)\<in>set cs. c_int s \<and> c_int t"
    by (simp_all add: c)
  show ?case
  proof (cases "v = PASS")
    case True
    with link ints have nodes: "node s" "node t"
      using insert_link_outside [of s t a v a1] by blast+
    with link True have "a1 = propagated {k. node k} a s t"
      by (simp add: insert_link_32 split: if_splits)
    with Cons.prems(3) nodes have "exact (insert (s, t) E) a1"
      by (simp add: exact_propagated)
    from Cons.IH [OF rest rest_ints this] show ?thesis
      by (simp add: es True)
  next
    case False
    have "a1 = a"
    proof (cases "node s \<and> node t")
      case True
      with link False show ?thesis
        by (simp add: insert_link_32 split: if_splits)
    next
      case False
      with link ints show ?thesis
        using insert_link_outside [of s t a v a1] by blast
    qed
    with Cons.prems(3) have "exact E a1"
      by simp
    from Cons.IH [OF rest rest_ints this] show ?thesis
      by (simp add: es False)
  qed
qed

lemma session_exact:
  fixes a :: "32 matrix"
  assumes "session cs = Inr (es, a)" and "\<forall>(s, t)\<in>set cs. c_int s \<and> c_int t"
  shows "exact (set es) a"
proof -
  from assms(1) have "insert_links (identity_matrix :: 32 matrix) cs = Inr (es, a)"
    by (simp add: session_def initialize_ancestors_32)
  from insert_links_exact [OF this assms(2) exact_identity_matrix] show ?thesis
    by simp
qed

lemma node_numeral [simp]:
  "node 0" "node 1" "node 2" "node 3" "node 5" "node 31" "node 32"
  by (simp_all add: node_def TOTAL_NODES_def)

lemma c_int_node: "node i \<Longrightarrow> c_int i"
  by (simp add: node_def c_int_def TOTAL_NODES_def)

lemma session_one_link:
  "session [(1, 2)] = Inr ([(1, 2)], propagated {k. node k} (identity_matrix :: 32 matrix) 1 2)"
  by (simp add: session_def initialize_ancestors_32 insert_link_32 recorded_identity_matrix)

lemma insert_link_first:
  "insert_link (identity_matrix :: 32 matrix) 1 2 =
     Inr (PASS, propagated {k. node k} identity_matrix 1 2)"
  by (simp add: insert_link_32 recorded_identity_matrix)

lemma identity_matrix_fields:
  "(identity_matrix :: 32 matrix) 1 0 = 2" "(identity_matrix :: 32 matrix) 2 0 = 4"
  "(identity_matrix :: 32 matrix) 3 0 = 8"
  by (simp_all add: identity_matrix_def TOTAL_NODES_def FIELD_SIZE_32)

lemma insert_link_recorded:
  fixes a :: "32 matrix"
  assumes "insert_link a s t = Inr (v, a')" and "c_int s" and "c_int t"
    and "node i" and "node j" and "recorded a i j"
  shows "recorded a' i j"
proof (cases "node s \<and> node t")
  case True
  with assms(1) have "a' = a \<or> a' = propagated {k. node k} a s t"
    by (auto simp: insert_link_32 split: if_splits)
  with True assms(4-6) show ?thesis
    by (auto simp: recorded_propagated)
next
  case False
  with assms(1-3) have "a' = a"
    using insert_link_outside [of s t a v a'] by blast
  with assms(6) show ?thesis
    by simp
qed

lemma insert_links_append:
  "insert_links a (cs @ ds) =
     (case insert_links a cs of
        Inl e \<Rightarrow> Inl e
      | Inr (es, a') \<Rightarrow>
          (case insert_links a' ds of Inl e \<Rightarrow> Inl e | Inr (fs, a'') \<Rightarrow> Inr (es @ fs, a'')))"
  by (induction a cs rule: insert_links.induct) (auto split: sum.splits prod.splits)

lemma insert_link_too_large:
  "TOTAL_NODES \<le> s \<or> TOTAL_NODES \<le> t \<Longrightarrow> insert_link a s t = Inr (BAD_DATA, a)"
  by (auto simp: insert_link_def)

lemma insert_link_defined:
  fixes a :: "32 matrix"
  assumes "0 \<le> s" and "0 \<le> t"
  shows "\<exists>v a'. insert_link a s t = Inr (v, a')"
proof (cases "node s \<and> node t")
  case True
  then show ?thesis
    by (simp add: insert_link_32)
next
  case False
  with assms have "TOTAL_NODES \<le> s \<or> TOTAL_NODES \<le> t"
    by (auto simp: node_def)
  then show ?thesis
    by (simp add: insert_link_too_large)
qed

lemma insert_links_defined:
  fixes a :: "32 matrix"
  assumes "\<forall>(s, t)\<in>set cs. 0 \<le> s \<and> 0 \<le> t"
  shows "\<exists>es a'. insert_links a cs = Inr (es, a')"
  using assms
proof (induction cs arbitrary: a)
  case Nil
  show ?case by simp
next
  case (Cons c cs)
  obtain s t where c: "c = (s, t)"
    by (cases c)
  from Cons.prems obtain v a1 where link: "insert_link a s t = Inr (v, a1)"
    using insert_link_defined [of s t a] by (auto simp: c)
  from Cons.prems Cons.IH [of a1] obtain es a' where "insert_links a1 cs = Inr (es, a')"
    by auto
  with link show ?case
    by (simp add: c)
qed

text \<open>A session whose calls all have non-negative arguments runs without an undefined access.\<close>

lemma session_defined:
  assumes "\<forall>(s, t)\<in>set cs. 0 \<le> s \<and> 0 \<le> t"
  shows "\<exists>es (a :: 32 matrix). session cs = Inr (es, a)"
  using insert_links_defined [OF assms]
  by (simp add: session_def initialize_ancestors_32)

text \<open>\<^verbatim>\<open>set_ancestor\<close> sets one bit: afterwards \<^verbatim>\<open>is_ancestor\<close> returns true at that pair
  and what it returned before at every other pair.\<close>

lemma recorded_set_bit:
  fixes a :: "32 matrix"
  assumes "node x" and "node j"
  shows "recorded (a(d := (a d)(x div 32 := a d (x div 32) OR 2 ^ nat (x mod 32)))) i j =
           (recorded a i j \<or> i = d \<and> j = x)"
proof -
  have eq: "(j div 32 = x div 32 \<and> j mod 32 = x mod 32) = (j = x)"
    by (metis mult_div_mod_eq)
  have "nat (j mod 32) < 32" and "0 \<le> x mod 32" and "0 \<le> j mod 32"
    by simp_all
  then have b: "bit (2 ^ nat (x mod 32) :: 32 word) (nat (j mod 32)) = (j mod 32 = x mod 32)"
    by (auto simp: bit_exp_iff)
  have "recorded (a(d := (a d)(x div 32 := a d (x div 32) OR 2 ^ nat (x mod 32)))) i j =
          (recorded a i j \<or> i = d \<and> (j div 32 = x div 32 \<and> j mod 32 = x mod 32))"
    by (auto simp: recorded_def FIELD_SIZE_32 bit_or_iff b)
  then show ?thesis
    by (simp only: eq)
qed

lemma set_ancestor_round_trip_32:
  fixes a :: "32 matrix"
  assumes "node d" and "node x"
  shows "\<exists>a'. set_ancestor a d x = Inr a' \<and> is_ancestor a' d x = Inr True \<and>
           (\<forall>d' x'. node d' \<and> node x' \<and> (d', x') \<noteq> (d, x) \<longrightarrow>
              is_ancestor a' d' x' = is_ancestor a d' x')"
  using assms
  by (auto simp: set_ancestor_32 is_ancestor_32 recorded_set_bit)

text \<open>The matrix after the calls \<^verbatim>\<open>insert_link(1,2)\<close>, \<open>\<dots>\<close>, \<^verbatim>\<open>insert_link(n-1,n)\<close>: every call
  returns \<^verbatim>\<open>PASS\<close>, and \<open>j\<close> is recorded as an ancestor of \<open>i\<close> exactly when \<open>i = j\<close> or
  \<open>1 \<le> j < i \<le> n\<close>.\<close>

lemma chain_1: "chain 1 = []"
  by (simp add: chain_def)

lemma chain_Suc: "1 \<le> n \<Longrightarrow> chain (int (Suc n)) = chain (int n) @ [(int n, int n + 1)]"
  unfolding chain_def nat_int by simp

lemma chain_state:
  assumes "1 \<le> n" and "int n < TOTAL_NODES"
  shows "\<exists>a :: 32 matrix.
           insert_links identity_matrix (chain (int n)) = Inr (chain (int n), a) \<and>
           (\<forall>i j. node i \<longrightarrow> node j \<longrightarrow>
              recorded a i j = (i = j \<or> 1 \<le> j \<and> j < i \<and> i \<le> int n))"
  using assms
proof (induction n rule: nat_induct_at_least)
  case base
  show ?case
    by (auto simp: chain_1 recorded_identity_matrix)
next
  case (Suc n)
  from Suc.prems have "int n < TOTAL_NODES"
    by simp
  from Suc.IH [OF this] obtain a :: "32 matrix" where
    run: "insert_links identity_matrix (chain (int n)) = Inr (chain (int n), a)" and
    rec: "\<And>i j. node i \<Longrightarrow> node j \<Longrightarrow>
             recorded a i j = (i = j \<or> 1 \<le> j \<and> j < i \<and> i \<le> int n)"
    by blast
  have nodes: "node (int n)" "node (int n + 1)"
    using Suc.prems by (simp_all add: node_def)
  let ?a' = "propagated {k. node k} a (int n) (int n + 1)"
  have "\<not> recorded a (int n) (int n + 1)"
    by (simp add: rec [OF nodes])
  then have link: "insert_link a (int n) (int n + 1) = Inr (PASS, ?a')"
    by (simp add: insert_link_32 [OF nodes])
  have "recorded ?a' i j = (i = j \<or> 1 \<le> j \<and> j < i \<and> i \<le> int (Suc n))"
    if "node i" and "node j" for i j
    using that Suc.hyps
    by (auto simp: recorded_propagated [OF that nodes(2)] rec [OF that] rec [OF that(1) nodes(2)]
        rec [OF nodes(1) that(2)])
  moreover have "insert_links identity_matrix (chain (int (Suc n))) = Inr (chain (int (Suc n)), ?a')"
    unfolding chain_Suc [OF Suc.hyps] insert_links_append run
    by (simp add: link)
  ultimately show ?case
    by blast
qed

text \<open>With 32-bit fields, after \<^verbatim>\<open>initialize_ancestors\<close> and calls of \<^verbatim>\<open>insert_link\<close> that ran
  without an undefined access, the matrix is the reflexive transitive closure of the links
  that returned \<^verbatim>\<open>PASS\<close>.\<close>

lemma ancestors_exact_closure:
  fixes a :: "32 matrix"
  assumes "session cs = Inr (es, a)" and "\<forall>(s, t)\<in>set cs. c_int s \<and> c_int t"
    and "node i" and "node j"
  shows "is_ancestor a i j = Inr ((j, i) \<in> (set es)\<^sup>*)"
  using session_exact [OF assms(1,2)] assms(3,4)
  by (simp add: is_ancestor_32 exact_def)

lemma ancestors_exact_closure_example:
  "session [(1, 2)] = Inr ([(1, 2)], propagated {k. node k} (identity_matrix :: 32 matrix) 1 2) \<and>
   is_ancestor (propagated {k. node k} (identity_matrix :: 32 matrix) 1 2) 2 1 = Inr True"
proof -
  have calls: "\<forall>(s, t)\<in>set [(1, 2 :: int)]. c_int s \<and> c_int t"
    by (simp add: c_int_def)
  have "is_ancestor (propagated {k. node k} (identity_matrix :: 32 matrix) 1 2) 2 1 =
          Inr ((1, 2) \<in> (set [(1, 2 :: int)])\<^sup>*)"
    by (rule ancestors_exact_closure [OF session_one_link calls]) simp_all
  moreover have "(1, 2 :: int) \<in> (set [(1, 2)])\<^sup>*"
    by (rule r_into_rtrancl) simp
  ultimately show ?thesis
    by (simp add: session_one_link)
qed

text \<open>With 32-bit fields, the chain \<^verbatim>\<open>insert_link(1,2)\<close>, \<open>\<dots>\<close>, \<^verbatim>\<open>insert_link(k-1,k)\<close> after
  \<^verbatim>\<open>initialize_ancestors\<close>: every call returns \<^verbatim>\<open>PASS\<close>, node \<open>k\<close> has the ancestors
  \<open>1, \<dots>, k\<close>, and \<open>k\<close> is an ancestor of no node before it.\<close>

lemma chain_ancestors:
  assumes "1 \<le> k" and "k < TOTAL_NODES"
  shows "\<exists>a :: 32 matrix.
           session (chain k) = Inr (chain k, a) \<and>
           (\<forall>m. 1 \<le> m \<and> m \<le> k \<longrightarrow> is_ancestor a k m = Inr True) \<and>
           (\<forall>m. 1 \<le> m \<and> m < k \<longrightarrow> is_ancestor a m k = Inr False)"
proof -
  from assms have n: "1 \<le> nat k" "int (nat k) < TOTAL_NODES" and k: "int (nat k) = k"
    by simp_all
  from chain_state [OF n] obtain a :: "32 matrix" where
    run: "insert_links identity_matrix (chain k) = Inr (chain k, a)" and
    rec: "\<And>i j. node i \<Longrightarrow> node j \<Longrightarrow>
             recorded a i j = (i = j \<or> 1 \<le> j \<and> j < i \<and> i \<le> k)"
    unfolding k by blast
  have "session (chain k) = Inr (chain k, a)"
    by (simp add: session_def initialize_ancestors_32 run)
  moreover have "is_ancestor a k m = Inr True" if "1 \<le> m \<and> m \<le> k" for m
  proof -
    have "node k" and "node m"
      using that assms by (simp_all add: node_def)
    then show ?thesis
      using that by (auto simp: is_ancestor_32 rec)
  qed
  moreover have "is_ancestor a m k = Inr False" if "1 \<le> m \<and> m < k" for m
  proof -
    have "node k" and "node m"
      using that assms by (simp_all add: node_def)
    then show ?thesis
      using that by (auto simp: is_ancestor_32 rec)
  qed
  ultimately show ?thesis
    by blast
qed

lemma chain_ancestors_example:
  "chain 3 = [(1, 2), (2, 3)] \<and>
   (\<exists>a :: 32 matrix. session (chain 3) = Inr (chain 3, a) \<and>
      is_ancestor a 3 1 = Inr True \<and> is_ancestor a 3 2 = Inr True \<and>
      is_ancestor a 3 3 = Inr True \<and> is_ancestor a 1 3 = Inr False \<and>
      is_ancestor a 2 3 = Inr False)"
proof -
  have "chain 3 = [(1, 2), (2, 3)]"
    by (simp add: chain_def upt_rec)
  moreover have "(1 :: int) \<le> 3" and "3 < TOTAL_NODES"
    by (simp_all add: TOTAL_NODES_def)
  from chain_ancestors [OF this] obtain a :: "32 matrix" where
    "session (chain 3) = Inr (chain 3, a)" and
    "\<And>m. 1 \<le> m \<and> m \<le> 3 \<Longrightarrow> is_ancestor a 3 m = Inr True" and
    "\<And>m. 1 \<le> m \<and> m < 3 \<Longrightarrow> is_ancestor a m 3 = Inr False"
    by blast
  then have "session (chain 3) = Inr (chain 3, a) \<and>
      is_ancestor a 3 1 = Inr True \<and> is_ancestor a 3 2 = Inr True \<and>
      is_ancestor a 3 3 = Inr True \<and> is_ancestor a 1 3 = Inr False \<and>
      is_ancestor a 2 3 = Inr False"
    by simp
  ultimately show ?thesis
    by blast
qed

section \<open>A 64-bit \<^verbatim>\<open>unsigned long\<close>\<close>

text \<open>With a field of 64 bits the bit number \<^verbatim>\<open>n_ancestor % FIELD_SIZE\<close> ranges up to 63, while
  the mask \<^verbatim>\<open>1 << n_target_bit\<close> is still computed in \<^verbatim>\<open>int\<close>. From bit 32 on the shift is
  undefined, and \<^verbatim>\<open>initialize_ancestors\<close> reaches it at node 32. At bit 31 the mask is
  \<^verbatim>\<open>INT_MIN\<close>, which the conversion to \<^verbatim>\<open>unsigned long\<close> extends to the bits 31 to 63.\<close>

lemma for_each_fault:
  assumes "x \<in> set xs" and "\<And>s. \<exists>e. body x s = Inl e"
  shows "\<exists>e. for_each xs body s = Inl e"
  using assms(1)
proof (induction xs arbitrary: s)
  case Nil
  then show ?case by simp
next
  case (Cons y ys)
  show ?case
  proof (cases "body y s")
    case (Inl e)
    then show ?thesis by simp
  next
    case (Inr s')
    show ?thesis
    proof (cases "x = y")
      case True
      with assms(2) [of s] Inr show ?thesis by simp
    next
      case False
      with Cons.prems have "x \<in> set ys" by simp
      from Cons.IH [OF this, of s'] Inr show ?thesis by simp
    qed
  qed
qed

lemma set_ancestor_64_bit_shift:
  "set_ancestor (a :: 64 matrix) d 32 = Inl ShiftTooWide"
  by (simp add: set_ancestor_def Let_def to_ulong_def to_int_def FIELD_SIZE_def shift_left_int_def)

lemma is_ancestor_64_bit_shift:
  "is_ancestor (a :: 64 matrix) d 32 = Inl ShiftTooWide"
  by (simp add: is_ancestor_def Let_def to_ulong_def to_int_def FIELD_SIZE_def shift_left_int_def)

lemma initialize_ancestors_64_bit_field:
  "\<exists>e. initialize_ancestors (a :: 64 matrix) = Inl e"
  unfolding initialize_ancestors_def
proof (rule for_each_fault [where x = 32])
  show "32 \<in> set (count_up TOTAL_NODES)"
    by (simp add: set_count_up TOTAL_NODES_def)
  show "\<exists>e. set_ancestor s 32 32 = Inl e" for s :: "64 matrix"
    by (simp add: set_ancestor_64_bit_shift)
qed

lemma int_min_as_unsigned_long_64: "(- 2147483648 :: 64 word) = 0xFFFFFFFF80000000"
  by simp

text \<open>The first undefined access of \<^verbatim>\<open>initialize_ancestors\<close> is that shift, so no session of
  the program has a defined result with 64-bit fields.\<close>

lemma for_each_fault_kind:
  assumes "x \<in> set xs" and "\<And>s. body x s = Inl e"
    and "\<And>y s e'. y \<in> set xs \<Longrightarrow> body y s = Inl e' \<Longrightarrow> e' = e"
  shows "for_each xs body s = Inl e"
  using assms(1,3)
proof (induction xs arbitrary: s)
  case Nil
  then show ?case by simp
next
  case (Cons y ys)
  show ?case
  proof (cases "body y s")
    case (Inl e')
    with Cons.prems(2) [of y s e'] show ?thesis by simp
  next
    case (Inr s')
    with assms(2) [of s] have "x \<noteq> y" by auto
    with Cons.prems(1) have "x \<in> set ys" by simp
    moreover have "e' = e" if "z \<in> set ys" and "body z s'' = Inl e'" for z s'' e'
      using that Cons.prems(2) [of z s'' e'] by simp
    ultimately have "for_each ys body s' = Inl e"
      by (rule Cons.IH)
    with Inr show ?thesis by simp
  qed
qed

lemma set_ancestor_64_bit_fault:
  fixes a :: "64 matrix"
  assumes "node i" and "set_ancestor a i i = Inl e"
  shows "e = ShiftTooWide"
proof -
  have i: "0 \<le> i" "i < 65536"
    using assms(1) by (simp_all add: node_def TOTAL_NODES_def)
  then have u: "to_ulong TYPE(64) i = i"
    by (simp add: to_ulong_def)
  have "0 \<le> i div 64" and "i div 64 < 1024"
    using i by simp_all
  then have b: "in_bounds TYPE(64) i (to_int (i div 64))"
    using i by (simp add: in_bounds_def TOTAL_NODES_def FIELDS_PER_NODE_def FIELD_SIZE_def to_int_small)
  from assms(2) show ?thesis
    unfolding set_ancestor_def Let_def u
    by (auto simp: FIELD_SIZE_def fetch_def store_def b shift_left_int_def split: sum.splits if_splits)
qed

lemma initialize_ancestors_64_bit_fault:
  "initialize_ancestors (a :: 64 matrix) = Inl ShiftTooWide"
  unfolding initialize_ancestors_def
proof (rule for_each_fault_kind [where x = 32])
  show "32 \<in> set (count_up TOTAL_NODES)"
    by (simp add: set_count_up TOTAL_NODES_def)
  show "set_ancestor s 32 32 = Inl ShiftTooWide" for s :: "64 matrix"
    by (rule set_ancestor_64_bit_shift)
  show "e' = ShiftTooWide"
    if "y \<in> set (count_up TOTAL_NODES)" and "set_ancestor s y y = Inl e'"
    for y and s :: "64 matrix" and e'
    using that by (intro set_ancestor_64_bit_fault [of y s e']) (simp_all add: set_count_up node_def)
qed

lemma session_64_bit_fault:
  "(session cs :: fault + (int \<times> int) list \<times> 64 matrix) = Inl ShiftTooWide"
  by (simp add: session_def initialize_ancestors_64_bit_fault)

lemma is_ancestor_64_bit_high:
  "is_ancestor (a :: 64 matrix) 32 33 = Inl ShiftTooWide"
  by (simp add: is_ancestor_def Let_def to_ulong_def to_int_def FIELD_SIZE_def shift_left_int_def)

section \<open>The claims\<close>

text \<open>The theorems of the claims C2, C3, C5 and C8 to C10 are about a matrix of 32-bit fields.
  A result \<open>Inr\<close> of a function says that it returned without an undefined access.\<close>

text \<open>
  C1. The claim: after \<^verbatim>\<open>initialize_ancestors\<close> and any finite sequence of \<^verbatim>\<open>insert_link\<close>
  calls, \<^verbatim>\<open>is_ancestor(i, j)\<close> is true exactly when \<open>i = j\<close> or there is a path from \<open>j\<close> to \<open>i\<close>
  through the links that returned \<^verbatim>\<open>PASS\<close>. The code keeps that only with 32-bit fields and
  non-negative arguments (lemma \<open>ancestors_exact_closure\<close>). With 64-bit fields
  \<^verbatim>\<open>initialize_ancestors\<close> itself shifts the \<^verbatim>\<open>int\<close> 1 by 32, so the program has no defined
  matrix before or after the call \<^verbatim>\<open>insert_link(32, 0)\<close>. With 32-bit fields the call
  \<^verbatim>\<open>insert_link(-1, 0)\<close> reads \<^verbatim>\<open>ancestors[-1][0]\<close>, outside the array.
\<close>

theorem session_undefined_runs:
  "(session [] :: fault + (int \<times> int) list \<times> 64 matrix) = Inl ShiftTooWide \<and>
   (session [(32, 0)] :: fault + (int \<times> int) list \<times> 64 matrix) = Inl ShiftTooWide \<and>
   (session [(- 1, 0)] :: fault + (int \<times> int) list \<times> 32 matrix) = Inl OutOfBounds"
proof -
  have "insert_link (identity_matrix :: 32 matrix) (- 1) 0 = Inl OutOfBounds"
    by (simp add: insert_link_def TOTAL_NODES_def is_ancestor_def Let_def to_ulong_def to_int_def
        FIELD_SIZE_def shift_left_int_def fetch_def in_bounds_def)
  then show ?thesis
    by (simp add: session_64_bit_fault session_def initialize_ancestors_32)
qed

text \<open>
  C2. For every call \<^verbatim>\<open>insert_link(s, t)\<close> with \<open>s\<close> and \<open>t\<close> in \<open>[0, TOTAL_NODES)\<close>: if
  \<open>s = t\<close> the result is \<^verbatim>\<open>FAIL\<close> and the matrix is unchanged; otherwise, if
  \<^verbatim>\<open>is_ancestor(s, t)\<close> is true the result is \<^verbatim>\<open>FAIL\<close> and the matrix is unchanged; otherwise
  \<^verbatim>\<open>insert_ancestors(s, t)\<close> is applied, it returns, and the result is \<^verbatim>\<open>PASS\<close> with the matrix
  \<^verbatim>\<open>insert_ancestors\<close> left.
\<close>

theorem insert_link_decision:
  fixes a :: "32 matrix"
  assumes "node s" and "node t"
  shows "(s = t \<longrightarrow> insert_link a s t = Inr (FAIL, a)) \<and>
         (s \<noteq> t \<and> is_ancestor a s t = Inr True \<longrightarrow> insert_link a s t = Inr (FAIL, a)) \<and>
         (s \<noteq> t \<and> is_ancestor a s t \<noteq> Inr True \<longrightarrow>
            (\<exists>a'. insert_ancestors a s t = Inr a' \<and> insert_link a s t = Inr (PASS, a')))"
  using assms
  by (simp add: insert_link_32 is_ancestor_32 insert_ancestors_32)

theorem insert_link_decision_witness:
  "insert_link (identity_matrix :: 32 matrix) 1 1 = Inr (FAIL, identity_matrix) \<and>
   insert_link (propagated {k. node k} (identity_matrix :: 32 matrix) 1 2) 2 1 =
     Inr (FAIL, propagated {k. node k} identity_matrix 1 2) \<and>
   (\<exists>a'. insert_ancestors (identity_matrix :: 32 matrix) 1 2 = Inr a' \<and>
      insert_link identity_matrix 1 2 = Inr (PASS, a'))"
proof -
  let ?a = "identity_matrix :: 32 matrix"
  let ?b = "propagated {k. node k} ?a 1 2"
  have "is_ancestor ?a 1 2 \<noteq> Inr True"
    by (simp add: is_ancestor_32 recorded_identity_matrix)
  moreover have "is_ancestor ?b 2 1 = Inr True"
    by (simp add: is_ancestor_32 recorded_propagated recorded_identity_matrix)
  ultimately show ?thesis
    using insert_link_decision [of 1 1 ?a] insert_link_decision [of 1 2 ?a]
      insert_link_decision [of 2 1 ?b]
    by simp
qed

text \<open>
  C3. For every node \<open>x\<close>, \<^verbatim>\<open>is_ancestor(x, x)\<close> returns true immediately after
  \<^verbatim>\<open>initialize_ancestors\<close> (the session with no call) and after every later call of
  \<^verbatim>\<open>insert_link\<close>, whatever values of type \<^verbatim>\<open>int\<close> its arguments are and whatever it
  returned.
\<close>

theorem is_ancestor_reflexive:
  fixes a :: "32 matrix"
  assumes "session cs = Inr (es, a)" and "\<forall>(s, t)\<in>set cs. c_int s \<and> c_int t"
    and "node x"
  shows "is_ancestor a x x = Inr True"
  using session_exact [OF assms(1,2)] assms(3)
  by (simp add: is_ancestor_32 exact_def)

theorem is_ancestor_reflexive_witness:
  "session [(1, 2)] = Inr ([(1, 2)], propagated {k. node k} (identity_matrix :: 32 matrix) 1 2) \<and>
   is_ancestor (propagated {k. node k} (identity_matrix :: 32 matrix) 1 2) 5 5 = Inr True"
proof -
  have calls: "\<forall>(s, t)\<in>set [(1, 2 :: int)]. c_int s \<and> c_int t"
    by (simp add: c_int_def)
  have "is_ancestor (propagated {k. node k} (identity_matrix :: 32 matrix) 1 2) 5 5 = Inr True"
    by (rule is_ancestor_reflexive [OF session_one_link calls]) simp
  then show ?thesis
    by (simp add: session_one_link)
qed

text \<open>
  C4. The claim: every call \<^verbatim>\<open>insert_link(s, t)\<close> with \<open>s\<close> or \<open>t\<close> outside \<open>[0, TOTAL_NODES)\<close>
  returns \<^verbatim>\<open>BAD_DATA\<close>, reads and writes no entry of the matrix and leaves it unchanged. The
  code compares both arguments with \<^verbatim>\<open>TOTAL_NODES\<close> only (lemma \<open>insert_link_too_large\<close>) and
  lets a negative argument through. Right after \<^verbatim>\<open>initialize_ancestors\<close>, the call
  \<^verbatim>\<open>insert_link(-1, 0)\<close> reaches \<^verbatim>\<open>is_ancestor(-1, 0)\<close>, which reads \<^verbatim>\<open>ancestors[-1][0]\<close>, outside the
  array; the call \<^verbatim>\<open>insert_link(-1, -1)\<close> returns \<^verbatim>\<open>FAIL\<close>, not \<^verbatim>\<open>BAD_DATA\<close>.
\<close>

theorem insert_link_negative_node:
  "insert_link (identity_matrix :: 32 matrix) (- 1) 0 = Inl OutOfBounds \<and>
   insert_link (identity_matrix :: 32 matrix) (- 1) (- 1) = Inr (FAIL, identity_matrix)"
  by (simp add: insert_link_def TOTAL_NODES_def is_ancestor_def Let_def to_ulong_def to_int_def
      FIELD_SIZE_def shift_left_int_def fetch_def in_bounds_def)

text \<open>
  C5. \<^verbatim>\<open>insert_ancestors(s, t)\<close> returns, and it changes exactly the rows \<open>k\<close> for which
  \<^verbatim>\<open>is_ancestor(k, t)\<close> was true before the call (row \<open>t\<close> among them when the diagonal is set):
  each field of such a row becomes its bitwise union with the same field of row \<open>s\<close>; every
  other row is unchanged. The result does not depend on the order in which the rows are
  visited: the loop body run over any list of the rows \<open>0, \<dots>, TOTAL_NODES - 1\<close> gives
  the same matrix.
\<close>

theorem insert_ancestors_rows_changed:
  fixes a :: "32 matrix"
  assumes "node s" and "node t"
  shows "\<exists>a'. insert_ancestors a s t = Inr a' \<and>
           (\<forall>k c. a' k c =
              (if is_ancestor a k t = Inr True \<and> 0 \<le> c \<and> c < FIELDS_PER_NODE TYPE(32)
               then a k c OR a s c else a k c)) \<and>
           (\<forall>ks. set ks = set (count_up TOTAL_NODES) \<longrightarrow>
              for_each ks (insert_ancestors_row s t) a = Inr a')"
proof (intro exI conjI allI impI)
  show "insert_ancestors a s t = Inr (propagated {k. node k} a s t)"
    by (rule insert_ancestors_32 [OF assms])
  show "propagated {k. node k} a s t k c =
          (if is_ancestor a k t = Inr True \<and> 0 \<le> c \<and> c < FIELDS_PER_NODE TYPE(32)
           then a k c OR a s c else a k c)" for k c
  proof (cases "node k")
    case True
    then show ?thesis
      by (simp add: propagated_def merge_rows_def)
  next
    case False
    then have "k < 0 \<or> TOTAL_NODES \<le> k"
      by (auto simp: node_def)
    then have "is_ancestor a k t \<noteq> Inr True"
      using is_ancestor_negative_row [of k a t]
      by (auto simp: is_ancestor_def Let_def fetch_def in_bounds_def split: sum.splits)
    with False show ?thesis
      by (simp add: propagated_def)
  qed
  show "for_each ks (insert_ancestors_row s t) a = Inr (propagated {k. node k} a s t)"
    if "set ks = set (count_up TOTAL_NODES)" for ks
    using that by (intro insert_ancestors_in_any_order [OF assms]) (simp add: set_count_up node_def)
qed

theorem insert_ancestors_rows_changed_witness:
  "\<exists>a'. insert_ancestors (identity_matrix :: 32 matrix) 1 2 = Inr a' \<and>
     a' 2 0 = 6 \<and> a' 3 0 = 8 \<and>
     for_each (rev (count_up TOTAL_NODES)) (insert_ancestors_row 1 2) identity_matrix = Inr a'"
proof -
  let ?a = "identity_matrix :: 32 matrix"
  from insert_ancestors_rows_changed [of 1 2 ?a] obtain a' where
    run: "insert_ancestors ?a 1 2 = Inr a'" and
    rows: "\<And>k c. a' k c =
              (if is_ancestor ?a k 2 = Inr True \<and> 0 \<le> c \<and> c < FIELDS_PER_NODE TYPE(32)
               then ?a k c OR ?a 1 c else ?a k c)" and
    order: "\<And>ks. set ks = set (count_up TOTAL_NODES) \<Longrightarrow>
              for_each ks (insert_ancestors_row 1 2) ?a = Inr a'"
    by auto
  have "a' 2 0 = 6"
    unfolding rows
    by (simp add: is_ancestor_32 recorded_identity_matrix FIELDS_PER_NODE_32 identity_matrix_fields)
  moreover have "a' 3 0 = 8"
    unfolding rows
    by (simp add: is_ancestor_32 recorded_identity_matrix identity_matrix_fields)
  moreover have "for_each (rev (count_up TOTAL_NODES)) (insert_ancestors_row 1 2) ?a = Inr a'"
    by (rule order) simp
  ultimately show ?thesis
    using run by blast
qed

text \<open>
  C6. The claim: for all \<open>d\<close> and \<open>a\<close> in \<open>[0, TOTAL_NODES)\<close>, after \<^verbatim>\<open>set_ancestor(d, a)\<close> the
  call \<^verbatim>\<open>is_ancestor(d, a)\<close> returns true and every other pair is as before: setting one bit
  never touches another ancestor. With a 32-bit field that holds (lemma
  \<open>set_ancestor_round_trip_32\<close>). With a 64-bit field the call \<^verbatim>\<open>set_ancestor(0, 32)\<close> shifts the
  \<^verbatim>\<open>int\<close> 1 by 32, which is undefined, and \<^verbatim>\<open>set_ancestor(0, 31)\<close> sets the bits of the ancestors
  31 to 63 of node 0 at once.
\<close>

theorem set_ancestor_64_bit_field:
  "set_ancestor (zeroed :: 64 matrix) 0 32 = Inl ShiftTooWide \<and>
   set_ancestor (zeroed :: 64 matrix) 0 31 =
     Inr (zeroed(0 := (zeroed 0)(0 := 0xFFFFFFFF80000000)))"
  by (simp add: set_ancestor_def Let_def to_ulong_def to_int_def FIELD_SIZE_def shift_left_int_def
      fetch_def store_def in_bounds_def TOTAL_NODES_def FIELDS_PER_NODE_def zeroed_def
      int_min_as_unsigned_long_64)

text \<open>
  C7. The claim: for every \<open>k\<close> with \<open>1 \<le> k < TOTAL_NODES\<close>, after \<^verbatim>\<open>initialize_ancestors\<close> and
  the calls \<^verbatim>\<open>insert_link(1,2)\<close>, \<open>\<dots>\<close>, \<^verbatim>\<open>insert_link(k-1,k)\<close>, each returning \<^verbatim>\<open>PASS\<close>,
  \<^verbatim>\<open>is_ancestor(k, m)\<close> is true for \<open>1 \<le> m \<le> k\<close> and \<^verbatim>\<open>is_ancestor(m, k)\<close> is false for
  \<open>1 \<le> m < k\<close>. The code does that with 32-bit fields (lemma \<open>chain_ancestors\<close>). With 64-bit
  fields and \<open>k = 33\<close>, \<^verbatim>\<open>initialize_ancestors\<close> shifts the \<^verbatim>\<open>int\<close> 1 by 32, and the last call of
  the chain, \<^verbatim>\<open>insert_link(32, 33)\<close>, shifts it by 33 in \<^verbatim>\<open>is_ancestor(32, 33)\<close>, on any matrix:
  neither has a defined result.
\<close>

theorem chain_64_bit_field:
  "(session (chain 33) :: fault + (int \<times> int) list \<times> 64 matrix) = Inl ShiftTooWide \<and>
   last (chain 33) = (32, 33) \<and>
   (\<forall>a :: 64 matrix. insert_link a 32 33 = Inl ShiftTooWide)"
proof -
  have "chain 33 = chain 32 @ [(32, 33)]"
    using chain_Suc [of 32] by simp
  then have "last (chain 33) = (32, 33)"
    by simp
  moreover have "insert_link a 32 33 = Inl ShiftTooWide" for a :: "64 matrix"
    by (simp add: insert_link_def TOTAL_NODES_def is_ancestor_64_bit_high)
  ultimately show ?thesis
    by (simp add: session_64_bit_fault)
qed

text \<open>
  C8. The ancestors relation grows monotonically: for every call of \<^verbatim>\<open>insert_link\<close>, whatever
  values of type \<^verbatim>\<open>int\<close> its arguments are and whatever it returns, and for all nodes \<open>i\<close> and
  \<open>j\<close>, if \<^verbatim>\<open>is_ancestor(i, j)\<close> is true before the call it is true after it.
\<close>

theorem insert_link_monotone:
  fixes a :: "32 matrix"
  assumes "insert_link a s t = Inr (v, a')" and "c_int s" and "c_int t"
    and "node i" and "node j" and "is_ancestor a i j = Inr True"
  shows "is_ancestor a' i j = Inr True"
  using insert_link_recorded [OF assms(1-5)] assms(4-6)
  by (simp add: is_ancestor_32)

theorem insert_link_monotone_witness:
  "insert_link (identity_matrix :: 32 matrix) 1 2 =
     Inr (PASS, propagated {k. node k} identity_matrix 1 2) \<and>
   is_ancestor (identity_matrix :: 32 matrix) 5 5 = Inr True \<and>
   is_ancestor (propagated {k. node k} (identity_matrix :: 32 matrix) 1 2) 5 5 = Inr True"
proof -
  have before: "is_ancestor (identity_matrix :: 32 matrix) 5 5 = Inr True"
    by (simp add: is_ancestor_32 recorded_identity_matrix)
  have "is_ancestor (propagated {k. node k} (identity_matrix :: 32 matrix) 1 2) 5 5 = Inr True"
    by (rule insert_link_monotone [OF insert_link_first _ _ _ _ before])
       (simp_all add: c_int_def)
  with before show ?thesis
    by (simp add: insert_link_first)
qed

text \<open>
  C9. \<^verbatim>\<open>insert_ancestors\<close> is idempotent: for all nodes \<open>s\<close> and \<open>t\<close> and every matrix,
  \<^verbatim>\<open>insert_ancestors(s, t)\<close> returns, and run a second time right after the first it leaves
  the matrix as the first run left it.
\<close>

theorem insert_ancestors_idempotent:
  fixes a :: "32 matrix"
  assumes "node s" and "node t"
  shows "\<exists>a'. insert_ancestors a s t = Inr a' \<and> insert_ancestors a' s t = Inr a'"
  by (simp add: insert_ancestors_32 [OF assms] propagated_twice [OF assms(2)])

theorem insert_ancestors_idempotent_witness:
  "\<exists>a'. insert_ancestors (identity_matrix :: 32 matrix) 1 2 = Inr a' \<and>
     insert_ancestors a' 1 2 = Inr a'"
  using insert_ancestors_idempotent [of 1 2 "identity_matrix :: 32 matrix"]
  by simp

text \<open>
  C10. For all nodes \<open>s \<noteq> t\<close>, if \<^verbatim>\<open>insert_link(s, t)\<close> returns \<^verbatim>\<open>PASS\<close> then the same call
  repeated at once returns \<^verbatim>\<open>PASS\<close> again, and the repeated call leaves the matrix unchanged.
\<close>

theorem insert_link_repeated:
  fixes a :: "32 matrix"
  assumes "node s" and "node t" and "s \<noteq> t" and "insert_link a s t = Inr (PASS, a')"
  shows "insert_link a' s t = Inr (PASS, a')"
proof -
  from assms have n: "\<not> recorded a s t" and a': "a' = propagated {k. node k} a s t"
    by (simp_all add: insert_link_32 split: if_splits)
  from n have "\<not> recorded a' s t"
    by (simp add: a' recorded_propagated [OF assms(1,2,2)])
  then show ?thesis
    using assms(3) by (simp add: insert_link_32 [OF assms(1,2)] a' propagated_twice [OF assms(2)])
qed

theorem insert_link_repeated_witness:
  "insert_link (identity_matrix :: 32 matrix) 1 2 =
     Inr (PASS, propagated {k. node k} identity_matrix 1 2) \<and>
   insert_link (propagated {k. node k} (identity_matrix :: 32 matrix) 1 2) 1 2 =
     Inr (PASS, propagated {k. node k} identity_matrix 1 2)"
  using insert_link_repeated [OF _ _ _ insert_link_first]
  by (simp add: insert_link_first)

end
